theory Spec2Isabelle
  imports Main "HOL-Library.Char_ord" "HOL-Library.List_Lexorder"
begin

section \<open>Job packing: node allocation, liveness monitor and orchestrator\<close>

text \<open>
  The module \<^verbatim>\<open>fireworks/features/jobpack.py\<close> is Python 2 code of 2013: \<^verbatim>\<open>/\<close> on two
  integers is floor division (as \<open>div\<close> on \<open>int\<close>) and raises \<^verbatim>\<open>ZeroDivisionError\<close> for
  a zero divisor. The quotients are used as a list repetition count, as a slice bound
  and as the step of \<^verbatim>\<open>range\<close>, and the tests \<^verbatim>\<open>job_per_node*nnodes != num_rockets\<close> and
  \<^verbatim>\<open>sub_nnodes*num_rockets != nnodes\<close> detect a remainder, which they do for the integer
  quotient only.

  Exceptions are values of the type \<open>exn\<close>; a function that may raise returns
  \<open>exn + 'a\<close>, with \<open>Inl\<close> for the exception, or the exception as an \<open>exn option\<close> when it
  has no result. \<open>OtherError\<close> stands for every exception that is not one of the three
  named.
\<close>

datatype exn = ValueError | ZeroDivisionError | OSError | OtherError

type_synonym node = string

subsection \<open>Python primitives used by the allocator\<close>

text \<open>\<^verbatim>\<open>a / b\<close> on Python 2 integers.\<close>

definition py_div :: "int \<Rightarrow> int \<Rightarrow> exn + int" where
  "py_div a b = (if b = 0 then Inl ZeroDivisionError else Inr (a div b))"

text \<open>\<^verbatim>\<open>xs * k\<close>: the list repeated \<open>k\<close> times, empty for \<open>k \<le> 0\<close>.\<close>

definition py_repeat :: "'a list \<Rightarrow> int \<Rightarrow> 'a list" where
  "py_repeat xs k = concat (replicate (nat k) xs)"

text \<open>\<^verbatim>\<open>range(start, stop, step)\<close>; a zero step raises \<^verbatim>\<open>ValueError\<close>.\<close>

definition py_range :: "int \<Rightarrow> int \<Rightarrow> int \<Rightarrow> exn + int list" where
  "py_range start stop step =
     (if step = 0 then Inl ValueError
      else if 0 < step then
        Inr (map (\<lambda>k. start + int k * step) [0 ..< nat ((stop - start + step - 1) div step)])
      else
        Inr (map (\<lambda>k. start + int k * step) [0 ..< nat ((start - stop - step - 1) div (- step))]))"

text \<open>
  \<^verbatim>\<open>xs[lo:hi]\<close>: a negative bound counts from the end, and both bounds are clamped to
  the list.
\<close>

definition py_bound :: "nat \<Rightarrow> int \<Rightarrow> nat" where
  "py_bound n i = (if i < 0 then nat (i + int n) else min n (nat i))"

definition py_slice :: "'a list \<Rightarrow> int \<Rightarrow> int \<Rightarrow> 'a list" where
  "py_slice xs lo hi =
     (let a = py_bound (length xs) lo; b = py_bound (length xs) hi
      in take (b - a) (drop a xs))"

text \<open>
  \<^verbatim>\<open>if total_node_list:\<close> takes the branch for a list that is present and not empty;
  \<open>None\<close> and \<open>[]\<close> are both false.
\<close>

fun if_list :: "'a list option \<Rightarrow> 'a list option" where
  "if_list None = None"
| "if_list (Some []) = None"
| "if_list (Some (x # xs)) = Some (x # xs)"

text \<open>
  \<^verbatim>\<open>list(set(xs))\<close> lists the distinct elements of \<open>xs\<close> in the iteration order of the
  set, which depends on the hashes of the strings and is not fixed by the language.
  The order is a parameter \<open>iter\<close> of the model; \<open>set_order iter xs\<close> says that \<open>iter\<close>
  lists the elements of \<open>xs\<close>, each once.
\<close>

definition set_order :: "(node list \<Rightarrow> node list) \<Rightarrow> node list \<Rightarrow> bool" where
  "set_order iter xs = (distinct (iter xs) \<and> set (iter xs) = set xs)"

text \<open>\<^verbatim>\<open>sorted(list(set(xs)))\<close>\<close>

definition sorted_set :: "(node list \<Rightarrow> node list) \<Rightarrow> node list \<Rightarrow> node list" where
  "sorted_set iter xs = sort (iter xs)"

subsection \<open>\<^verbatim>\<open>split_node_lists\<close>\<close>

text \<open>
  The result is the pair \<^verbatim>\<open>(node_lists, sub_nproc_list)\<close>; an entry \<open>None\<close> of
  \<^verbatim>\<open>node_lists\<close> is a sub job without a node list.
\<close>

definition split_node_lists ::
  "(node list \<Rightarrow> node list) \<Rightarrow> int \<Rightarrow> node list option \<Rightarrow> int \<Rightarrow> bool
     \<Rightarrow> exn + (node list option list \<times> int list)" where
  "split_node_lists iter num_rockets total_node_list ppn serial_mode =
     (if serial_mode then
        (case if_list total_node_list of
           Some tnl \<Rightarrow>
             (let orig_node_list = sorted_set iter tnl;
                  nnodes = int (length orig_node_list)
              in case py_div num_rockets nnodes of
                   Inl e \<Rightarrow> Inl e
                 | Inr job_per_node \<Rightarrow>
                     if job_per_node * nnodes \<noteq> num_rockets then Inl ValueError
                     else Inr (map (\<lambda>node. Some [node]) (py_repeat orig_node_list job_per_node),
                               py_repeat [1] num_rockets))
         | None \<Rightarrow> Inr (py_repeat [None] num_rockets, py_repeat [1] num_rockets))
      else
        (case if_list total_node_list of
           Some tnl \<Rightarrow>
             (let orig_node_list = sorted_set iter tnl;
                  nnodes = int (length orig_node_list)
              in case py_div nnodes num_rockets of
                   Inl e \<Rightarrow> Inl e
                 | Inr sub_nnodes \<Rightarrow>
                     if sub_nnodes * num_rockets \<noteq> nnodes then Inl ValueError
                     else (case py_range 0 nnodes sub_nnodes of
                             Inl e \<Rightarrow> Inl e
                           | Inr is \<Rightarrow>
                               Inr (map (\<lambda>i. Some (py_slice orig_node_list i (i + sub_nnodes))) is,
                                    py_repeat [sub_nnodes * ppn] num_rockets)))
         | None \<Rightarrow> Inr (py_repeat [None] num_rockets, py_repeat [ppn] num_rockets)))"

text \<open>The deduplicated input in sorted order, as the specification names it.\<close>

definition distinct_sorted :: "node list \<Rightarrow> node list" where
  "distinct_sorted xs = sorted_list_of_set (set xs)"

text \<open>The nodes of one entry of \<^verbatim>\<open>node_lists\<close>; none for \<^verbatim>\<open>None\<close>.\<close>

fun share_nodes :: "node list option \<Rightarrow> node list" where
  "share_nodes None = []"
| "share_nodes (Some ns) = ns"

subsection \<open>\<^verbatim>\<open>ping_launch_jp\<close>: one scan of the registry\<close>

text \<open>
  The registry \<^verbatim>\<open>Running_IDs\<close> maps the process id of a worker to the launch id it
  holds, or to \<^verbatim>\<open>None\<close>; \<^verbatim>\<open>items()\<close> is a list of pairs. \<^verbatim>\<open>if lid:\<close> is false for
  \<^verbatim>\<open>None\<close> and for \<open>0\<close>. The world outside the monitor is the process table and the
  outcome of \<^verbatim>\<open>lp.ping_launch\<close> (\<open>None\<close> when the call returns, \<open>Some e\<close> when it
  raises \<open>e\<close>).
\<close>

type_synonym entry = "int \<times> int option"

record world =
  proc_exists :: "int \<Rightarrow> bool"
  ping_launch_exn :: "int option \<Rightarrow> exn option"

fun lid_truthy :: "int option \<Rightarrow> bool" where
  "lid_truthy None = False"
| "lid_truthy (Some l) = (l \<noteq> 0)"

text \<open>\<^verbatim>\<open>os.kill(pid, 0)\<close> raises \<^verbatim>\<open>OSError\<close> if the process is dead.\<close>

definition os_kill :: "world \<Rightarrow> int \<Rightarrow> exn option" where
  "os_kill w pid = (if proc_exists w pid then None else Some OSError)"

text \<open>
  The body of the \<^verbatim>\<open>try\<close>: the calls of \<^verbatim>\<open>ping_launch\<close> it made, and the exception
  it raised, if any.
\<close>

definition try_body :: "world \<Rightarrow> int \<Rightarrow> int option \<Rightarrow> entry list \<times> exn option" where
  "try_body w pid lid =
     (case os_kill w pid of
        Some e \<Rightarrow> ([], Some e)
      | None \<Rightarrow> ([(pid, lid)], ping_launch_exn w lid))"

text \<open>\<^verbatim>\<open>except OSError: pass\<close> catches \<^verbatim>\<open>OSError\<close> and nothing else.\<close>

fun except_OSError :: "exn option \<Rightarrow> exn option" where
  "except_OSError (Some OSError) = None"
| "except_OSError r = r"

text \<open>
  The \<^verbatim>\<open>for\<close> loop over the snapshot: the calls of \<^verbatim>\<open>ping_launch\<close> made, in order,
  and the exception that left the loop, if any.
\<close>

fun scan :: "world \<Rightarrow> entry list \<Rightarrow> entry list \<times> exn option" where
  "scan w [] = ([], None)"
| "scan w ((pid, lid) # rest) =
     (if lid_truthy lid then
        (case except_OSError (snd (try_body w pid lid)) of
           Some e \<Rightarrow> (fst (try_body w pid lid), Some e)
         | None \<Rightarrow> (fst (try_body w pid lid) @ fst (scan w rest), snd (scan w rest)))
      else scan w rest)"

text \<open>An entry the scan pings: its launch id is true and its process exists.\<close>

definition live :: "world \<Rightarrow> entry \<Rightarrow> bool" where
  "live w e = (lid_truthy (snd e) \<and> proc_exists w (fst e))"

subsection \<open>\<^verbatim>\<open>launch_job_packing_processes\<close>: the actions of one run\<close>

text \<open>
  The calls the orchestrator makes on the manager server, the worker processes and the
  ping thread, in the order it makes them. A call of the libraries may raise; which
  calls do is given by a record of outcomes. An exception leaves the function at once:
  the source has no \<^verbatim>\<open>try\<close> around any of the calls.
\<close>

datatype action =
    ManagerStart
  | ProcessStart nat "node list option" int
  | ThreadStart
  | ProcessJoin nat
  | StopSet
  | ManagerShutdown

record outcomes =
  run_manager_server_exn :: "exn option"
  process_start_exn :: "nat \<Rightarrow> exn option"
  thread_start_exn :: "exn option"

text \<open>\<^verbatim>\<open>for p in processes: p.start()\<close>\<close>

fun start_each ::
  "(nat \<Rightarrow> exn option) \<Rightarrow> (nat \<times> node list option \<times> int) list \<Rightarrow> action list \<times> exn option" where
  "start_each st [] = ([], None)"
| "start_each st ((i, nl, sub_nproc) # ps) =
     (case st i of
        Some e \<Rightarrow> ([], Some e)
      | None \<Rightarrow> (ProcessStart i nl sub_nproc # fst (start_each st ps), snd (start_each st ps)))"

text \<open>One process for each pair of \<^verbatim>\<open>zip(node_lists, sub_nproc_list)\<close>; the result is
  the number of processes created.\<close>

definition launch_rapidfire_processes ::
  "(nat \<Rightarrow> exn option) \<Rightarrow> node list option list \<Rightarrow> int list \<Rightarrow> action list \<times> (exn + nat)" where
  "launch_rapidfire_processes st node_lists sub_nproc_list =
     (let processes = zip node_lists sub_nproc_list;
          started = start_each st (zip [0 ..< length processes] processes)
      in (fst started,
          case snd started of Some e \<Rightarrow> Inl e | None \<Rightarrow> Inr (length processes)))"

definition launch_job_packing_processes ::
  "outcomes \<Rightarrow> (node list \<Rightarrow> node list) \<Rightarrow> int \<Rightarrow> node list option \<Rightarrow> int \<Rightarrow> bool
     \<Rightarrow> action list \<times> (exn + unit)" where
  "launch_job_packing_processes out iter num_rockets total_node_list ppn serial_mode =
     (case split_node_lists iter num_rockets total_node_list ppn serial_mode of
        Inl e \<Rightarrow> ([], Inl e)
      | Inr (node_lists, sub_nproc_list) \<Rightarrow>
          (case run_manager_server_exn out of
             Some e \<Rightarrow> ([], Inl e)
           | None \<Rightarrow>
               (case launch_rapidfire_processes (process_start_exn out) node_lists sub_nproc_list of
                  (started, Inl e) \<Rightarrow> (ManagerStart # started, Inl e)
                | (started, Inr n) \<Rightarrow>
                    (case thread_start_exn out of
                       Some e \<Rightarrow> (ManagerStart # started, Inl e)
                     | None \<Rightarrow>
                         (ManagerStart # started @ [ThreadStart] @ map ProcessJoin [0 ..< n]
                            @ [StopSet, ManagerShutdown],
                          Inr ())))))"


text \<open>A run in which no call raises.\<close>

definition no_raise :: outcomes where
  "no_raise =
     \<lparr>run_manager_server_exn = None, process_start_exn = (\<lambda>i. None), thread_start_exn = None\<rparr>"

subsection \<open>The orchestrator and the ping thread, interleaved\<close>

text \<open>
  From \<^verbatim>\<open>ping_thread.start()\<close> on two threads run: the orchestrator (the joins,
  \<^verbatim>\<open>ping_stop.set()\<close>, \<^verbatim>\<open>m.shutdown()\<close>) and \<^verbatim>\<open>ping_launch_jp\<close>. Each has a program
  counter naming the statement it executes next; a schedule says which thread takes
  the next step. A step of the ping thread that calls out (the connection, one scan of
  the registry) has the outcome the schedule gives it.
\<close>

datatype orch_pc = AtJoin nat | AtSet | AtShutdown | AtReturn

datatype mon_pc = AtConnect | AtTest | AtScan | AtWait | Exited | Raised exn

record sys =
  opc :: orch_pc
  mpc :: mon_pc
  stop_event :: bool
  manager_running :: bool
  joined :: "nat list"

datatype tick = Orch | Mon "exn option"

text \<open>
  \<open>AtJoin i\<close>: the \<^verbatim>\<open>for\<close> loop is at process \<open>i\<close> of \<open>n\<close>; it joins it (the step is
  the return of \<^verbatim>\<open>p.join()\<close>, and \<open>joined\<close> lists the processes joined so far), or ends.
\<close>

definition orch_step :: "nat \<Rightarrow> sys \<Rightarrow> sys" where
  "orch_step n s =
     (case opc s of
        AtJoin i \<Rightarrow>
          (if i < n then s\<lparr>joined := joined s @ [i], opc := AtJoin (Suc i)\<rparr>
           else s\<lparr>opc := AtSet\<rparr>)
      | AtSet \<Rightarrow> s\<lparr>stop_event := True, opc := AtShutdown\<rparr>
      | AtShutdown \<Rightarrow> s\<lparr>manager_running := False, opc := AtReturn\<rparr>
      | AtReturn \<Rightarrow> s)"

text \<open>
  \<open>AtTest\<close> is the test \<^verbatim>\<open>while not stop_event.is_set()\<close>, the only place where the loop
  reads the event; \<open>AtWait\<close> is \<^verbatim>\<open>stop_event.wait(PING_TIME_SECS)\<close>, which returns on the
  event or on the timeout.
\<close>

definition mon_step :: "exn option \<Rightarrow> sys \<Rightarrow> sys" where
  "mon_step outcome s =
     (case mpc s of
        AtConnect \<Rightarrow> (case outcome of Some e \<Rightarrow> s\<lparr>mpc := Raised e\<rparr> | None \<Rightarrow> s\<lparr>mpc := AtTest\<rparr>)
      | AtTest \<Rightarrow> (if stop_event s then s\<lparr>mpc := Exited\<rparr> else s\<lparr>mpc := AtScan\<rparr>)
      | AtScan \<Rightarrow> (case outcome of Some e \<Rightarrow> s\<lparr>mpc := Raised e\<rparr> | None \<Rightarrow> s\<lparr>mpc := AtWait\<rparr>)
      | AtWait \<Rightarrow> s\<lparr>mpc := AtTest\<rparr>
      | Exited \<Rightarrow> s
      | Raised e \<Rightarrow> s)"

fun step :: "nat \<Rightarrow> sys \<Rightarrow> tick \<Rightarrow> sys" where
  "step n s Orch = orch_step n s"
| "step n s (Mon outcome) = mon_step outcome s"

fun run :: "nat \<Rightarrow> sys \<Rightarrow> tick list \<Rightarrow> sys" where
  "run n s [] = s"
| "run n s (t # ts) = run n (step n s t) ts"

text \<open>The state right after \<^verbatim>\<open>ping_thread.start()\<close>.\<close>

definition init :: sys where
  "init = \<lparr>opc = AtJoin 0, mpc = AtConnect, stop_event = False, manager_running = True,
            joined = []\<rparr>"

text \<open>What holds of the orchestrator at each of its program points.\<close>

definition orch_inv :: "nat \<Rightarrow> sys \<Rightarrow> bool" where
  "orch_inv n s =
     (case opc s of
        AtJoin i \<Rightarrow> i \<le> n \<and> joined s = [0 ..< i] \<and> \<not> stop_event s \<and> manager_running s
      | AtSet \<Rightarrow> joined s = [0 ..< n] \<and> \<not> stop_event s \<and> manager_running s
      | AtShutdown \<Rightarrow> joined s = [0 ..< n] \<and> stop_event s \<and> manager_running s
      | AtReturn \<Rightarrow> joined s = [0 ..< n] \<and> stop_event s \<and> \<not> manager_running s)"

text \<open>
  A schedule for one worker process: the ping thread connects and tests the event, which
  is not set; then the orchestrator joins the worker, sets the event and shuts the
  manager down.
\<close>

definition late_stop :: "tick list" where
  "late_stop = [Mon None, Mon None, Orch, Orch, Orch, Orch]"

text \<open>
  The number of steps the orchestrator takes in a schedule, and the program point it
  has reached after \<open>c\<close> steps from \<open>AtJoin 0\<close>: \<open>n\<close> joins, the end of the loop,
  \<^verbatim>\<open>ping_stop.set()\<close>, \<^verbatim>\<open>m.shutdown()\<close>.
\<close>

definition orch_ticks :: "tick list \<Rightarrow> nat" where
  "orch_ticks sched = length (filter (\<lambda>t. t = Orch) sched)"

definition orch_at :: "nat \<Rightarrow> nat \<Rightarrow> orch_pc" where
  "orch_at n c =
     (if c \<le> n then AtJoin c
      else if c = n + 1 then AtSet
      else if c = n + 2 then AtShutdown
      else AtReturn)"

subsection \<open>Worlds for the examples\<close>

text \<open>Every process exists; \<^verbatim>\<open>ping_launch(1)\<close> raises an exception that is not an
  \<^verbatim>\<open>OSError\<close>.\<close>

definition ping_fails :: world where
  "ping_fails =
     \<lparr>proc_exists = (\<lambda>pid. True),
      ping_launch_exn = (\<lambda>lid. if lid = Some 1 then Some OtherError else None)\<rparr>"

text \<open>Process \<open>7\<close> does not exist; \<^verbatim>\<open>ping_launch(3)\<close> raises \<^verbatim>\<open>OSError\<close>.\<close>

definition one_dead :: world where
  "one_dead =
     \<lparr>proc_exists = (\<lambda>pid. pid \<noteq> 7),
      ping_launch_exn = (\<lambda>lid. if lid = Some 3 then Some OSError else None)\<rparr>"

text \<open>Process \<open>7\<close> does not exist; \<^verbatim>\<open>ping_launch(1)\<close> raises an exception that is not an
  \<^verbatim>\<open>OSError\<close>.\<close>

definition dead_and_failing :: world where
  "dead_and_failing =
     \<lparr>proc_exists = (\<lambda>pid. pid \<noteq> 7),
      ping_launch_exn = (\<lambda>lid. if lid = Some 1 then Some OtherError else None)\<rparr>"

section \<open>Lemmas\<close>

subsection \<open>Lists and the Python primitives\<close>

lemma sorted_set_eq: "set_order iter xs \<Longrightarrow> sorted_set iter xs = distinct_sorted xs"
  by (metis distinct_remdups_id set_order_def sorted_set_def distinct_sorted_def sorted_list_of_set_sort_remdups)

lemma py_repeat_single: "py_repeat [x] k = replicate (nat k) x"
  by (induction "nat k" arbitrary: k) (simp_all add: py_repeat_def)

lemma take_chunk: "take (m * k + k) ys = take (m * k) ys @ take k (drop (m * k) ys)"
  by (simp add: take_add)

lemma concat_chunks: "concat (map (\<lambda>j. take k (drop (j * k) ys)) [0 ..< m]) = take (m * k) ys"
proof (induction m)
  case 0
  show ?case by simp
next
  case (Suc m)
  have "take (Suc m * k) ys = take (m * k) ys @ take k (drop (m * k) ys)"
    using take_chunk [of m k ys] by (simp add: add.commute)
  with Suc show ?case by simp
qed

lemma range_len: "0 < k \<Longrightarrow> (int m * int k + int k - 1) div int k = int m"
proof -
  assume k: "0 < k"
  have "(int m * int k + int k - 1) div int k = (int k - 1 + int m * int k) div int k"
    by (simp add: algebra_simps)
  also have "\<dots> = (int k - 1) div int k + int m"
    using k by (subst div_mult_self1) simp_all
  also have "(int k - 1) div int k = 0"
    using k by (simp add: div_pos_pos_trivial)
  finally show ?thesis by simp
qed

lemma py_bound_int: "py_bound n (int i) = min n i"
  by (simp add: py_bound_def)

lemma py_slice_chunk:
  "j * k + k \<le> length ys \<Longrightarrow>
   py_slice ys (int j * int k) (int j * int k + int k) = take k (drop (j * k) ys)"
proof -
  assume h: "j * k + k \<le> length ys"
  have a: "py_bound (length ys) (int j * int k) = j * k"
    using h py_bound_int [of "length ys" "j * k"] by simp
  have b: "py_bound (length ys) (int j * int k + int k) = j * k + k"
    using h py_bound_int [of "length ys" "j * k + k"] by simp
  show ?thesis by (simp add: py_slice_def a b)
qed

lemma nth_concat_replicate:
  "i < n * length xs \<Longrightarrow> concat (replicate n xs) ! i = xs ! (i mod length xs)"
proof (induction n arbitrary: i)
  case 0
  then show ?case by simp
next
  case (Suc n)
  show ?case
  proof (cases "i < length xs")
    case True
    then show ?thesis by (simp add: nth_append)
  next
    case False
    then have "i - length xs < n * length xs" using Suc.prems by simp
    then have "concat (replicate n xs) ! (i - length xs) = xs ! ((i - length xs) mod length xs)"
      by (rule Suc.IH)
    with False show ?thesis by (simp add: nth_append le_mod_geq)
  qed
qed

lemma count_concat_replicate: "count_list (concat (replicate n xs)) x = n * count_list xs x"
  by (induction n) simp_all

lemma count_list_distinct: "distinct xs \<Longrightarrow> x \<in> set xs \<Longrightarrow> count_list xs x = 1"
  by (induction xs) (auto simp: count_list_0_iff)

lemma count_list_map_inj: "inj f \<Longrightarrow> count_list (map f xs) (f x) = count_list xs x"
  by (induction xs) (auto dest: injD)

subsection \<open>The branches of \<^verbatim>\<open>split_node_lists\<close>\<close>

lemma if_list_Some: "tnl \<noteq> [] \<Longrightarrow> if_list (Some tnl) = Some tnl"
  by (cases tnl) simp_all

lemma py_range_chunks:
  assumes "0 < k"
  shows "py_range 0 (int (m * k)) (int k) = Inr (map (\<lambda>j. int j * int k) [0 ..< m])"
proof -
  have "(int (m * k) - 0 + int k - 1) div int k = int m"
    using range_len [OF assms, of m] by simp
  then show ?thesis using assms by (simp add: py_range_def)
qed

lemma split_parallel_eq:
  assumes "set_order iter tnl" and "tnl \<noteq> []" and "0 < k" and "0 < m"
    and "length (distinct_sorted tnl) = m * k"
  shows "split_node_lists iter (int m) (Some tnl) ppn False =
           Inr (map (\<lambda>j. Some (take k (drop (j * k) (distinct_sorted tnl)))) [0 ..< m],
                replicate m (int k * ppn))"
proof -
  let ?orig = "distinct_sorted tnl"
  let ?n = "int (length ?orig)"
  have d: "py_div ?n (int m) = Inr (int k)"
    using assms(4,5) by (simp add: py_div_def)
  have chk: "int k * int m = ?n"
    using assms(5) by (simp add: mult.commute)
  have r: "py_range 0 ?n (int k) = Inr (map (\<lambda>j. int j * int k) [0 ..< m])"
    using py_range_chunks [OF assms(3), of m] assms(5) by simp
  have sl: "map (\<lambda>i. Some (py_slice ?orig i (i + int k))) (map (\<lambda>j. int j * int k) [0 ..< m])
              = map (\<lambda>j. Some (take k (drop (j * k) ?orig))) [0 ..< m]"
  proof -
    have "\<And>j. j < m \<Longrightarrow> j * k + k \<le> length ?orig"
    proof -
      fix j assume "j < m"
      then have "Suc j * k \<le> m * k" by (intro mult_le_mono1) simp
      then show "j * k + k \<le> length ?orig" using assms(5) by (simp add: add.commute)
    qed
    then show ?thesis by (simp add: py_slice_chunk)
  qed
  have rep: "py_repeat [int k * ppn] (int m) = replicate m (int k * ppn)"
    by (simp add: py_repeat_single)
  show ?thesis
    unfolding split_node_lists_def Let_def
    by (simp only: if_False if_list_Some [OF assms(2)] option.case sorted_set_eq [OF assms(1)]
        d sum.case chk r sl rep simp_thms)
qed

lemma concat_slices:
  "length ys = m * k \<Longrightarrow>
   concat (map share_nodes (map (\<lambda>j. Some (take k (drop (j * k) ys))) [0 ..< m])) = ys"
  using concat_chunks [of k ys m] by (simp add: comp_def)

lemma distinct_sorted_props:
  "sorted (distinct_sorted xs) \<and> distinct (distinct_sorted xs) \<and> set (distinct_sorted xs) = set xs"
  by (simp add: distinct_sorted_def)

lemma distinct_sorted_nonempty: "tnl \<noteq> [] \<Longrightarrow> 0 < length (distinct_sorted tnl)"
  using distinct_sorted_props [of tnl] by (cases "distinct_sorted tnl") auto

lemma split_absent:
  "split_node_lists iter num_rockets None ppn serial_mode =
     Inr (replicate (nat num_rockets) None, replicate (nat num_rockets) (if serial_mode then 1 else ppn))"
  by (simp add: split_node_lists_def py_repeat_single)

lemma split_empty:
  "split_node_lists iter num_rockets (Some []) ppn serial_mode =
     Inr (replicate (nat num_rockets) None, replicate (nat num_rockets) (if serial_mode then 1 else ppn))"
  by (simp add: split_node_lists_def py_repeat_single)

lemma split_deterministic_Some:
  assumes "set_order iter tnl" and "set_order iter' tnl"
  shows "split_node_lists iter n (Some tnl) ppn mode = split_node_lists iter' n (Some tnl) ppn mode"
proof (cases tnl)
  case Nil
  then show ?thesis by (simp add: split_empty)
next
  case (Cons x xs)
  have "sorted_set iter tnl = sorted_set iter' tnl"
    by (simp add: sorted_set_eq [OF assms(1)] sorted_set_eq [OF assms(2)])
  then have "sorted_set iter (x # xs) = sorted_set iter' (x # xs)"
    by (simp only: Cons)
  then show ?thesis
    by (simp add: Cons split_node_lists_def)
qed

lemma set_order_remdups: "set_order remdups xs"
  unfolding set_order_def by (simp only: distinct_remdups set_remdups simp_thms)

lemma div_mult_neq: "(a::int) mod b \<noteq> 0 \<Longrightarrow> a div b * b \<noteq> a"
  by (metis mod_mult_self2_is_0)

lemma split_parallel_indivisible:
  assumes "set_order iter tnl" and "tnl \<noteq> []" and "num_rockets \<noteq> 0"
    and "int (length (distinct_sorted tnl)) mod num_rockets \<noteq> 0"
  shows "split_node_lists iter num_rockets (Some tnl) ppn False = Inl ValueError"
proof -
  let ?n = "int (length (distinct_sorted tnl))"
  have d: "py_div ?n num_rockets = Inr (?n div num_rockets)"
    using assms(3) by (simp add: py_div_def)
  have chk: "?n div num_rockets * num_rockets \<noteq> ?n"
    by (rule div_mult_neq [OF assms(4)])
  show ?thesis
    unfolding split_node_lists_def Let_def
    by (simp only: if_False if_list_Some [OF assms(2)] option.case sorted_set_eq [OF assms(1)]
        d sum.case chk simp_thms if_True)
qed

lemma split_serial_indivisible:
  assumes "set_order iter tnl" and "tnl \<noteq> []"
    and "num_rockets mod int (length (distinct_sorted tnl)) \<noteq> 0"
  shows "split_node_lists iter num_rockets (Some tnl) ppn True = Inl ValueError"
proof -
  let ?n = "int (length (distinct_sorted tnl))"
  have "?n \<noteq> 0" using distinct_sorted_nonempty [OF assms(2)] by simp
  then have d: "py_div num_rockets ?n = Inr (num_rockets div ?n)"
    by (simp add: py_div_def)
  have chk: "num_rockets div ?n * ?n \<noteq> num_rockets"
    by (rule div_mult_neq [OF assms(3)])
  show ?thesis
    unfolding split_node_lists_def Let_def
    by (simp only: if_True if_list_Some [OF assms(2)] option.case sorted_set_eq [OF assms(1)]
        d sum.case chk simp_thms)
qed

lemma split_serial_eq:
  assumes "set_order iter tnl" and "tnl \<noteq> []"
    and "num_rockets = int (q * length (distinct_sorted tnl))"
  shows "split_node_lists iter num_rockets (Some tnl) ppn True =
           Inr (map (\<lambda>node. Some [node]) (concat (replicate q (distinct_sorted tnl))),
                replicate (q * length (distinct_sorted tnl)) 1)"
proof -
  let ?orig = "distinct_sorted tnl"
  let ?n = "int (length ?orig)"
  have n: "0 < length ?orig" by (rule distinct_sorted_nonempty [OF assms(2)])
  have "int (q * length ?orig) div ?n = int (q * length ?orig div length ?orig)"
    by (rule zdiv_int [symmetric])
  then have q: "num_rockets div ?n = int q" using n assms(3) by simp
  have d: "py_div num_rockets ?n = Inr (int q)"
    using n q by (simp add: py_div_def)
  have chk: "int q * ?n = num_rockets" using assms(3) by simp
  have r1: "py_repeat ?orig (int q) = concat (replicate q ?orig)" by (simp add: py_repeat_def)
  have r2: "py_repeat [1::int] num_rockets = replicate (q * length ?orig) 1"
    unfolding assms(3) py_repeat_single by (simp only: nat_int)
  show ?thesis
    unfolding split_node_lists_def Let_def
    by (simp only: if_True if_False if_list_Some [OF assms(2)] option.case
        sorted_set_eq [OF assms(1)] d sum.case chk r1 r2 simp_thms)
qed

lemma length_concat_replicate: "length (concat (replicate q xs)) = q * length xs"
  by (induction q) simp_all

lemma concat_singletons: "concat (map share_nodes (map (\<lambda>node. Some [node]) xs)) = xs"
  by (induction xs) simp_all

lemma split_serial_result:
  assumes "set_order iter tnl" and "tnl \<noteq> []"
    and "num_rockets mod int (length (distinct_sorted tnl)) = 0"
  shows "split_node_lists iter num_rockets (Some tnl) ppn True =
           Inr (map (\<lambda>node. Some [node])
                  (py_repeat (distinct_sorted tnl) (num_rockets div int (length (distinct_sorted tnl)))),
                py_repeat [1] num_rockets)"
proof -
  let ?n = "int (length (distinct_sorted tnl))"
  have "?n \<noteq> 0" using distinct_sorted_nonempty [OF assms(2)] by simp
  then have d: "py_div num_rockets ?n = Inr (num_rockets div ?n)"
    by (simp add: py_div_def)
  have "?n dvd num_rockets" using assms(3) by (simp add: mod_eq_0_iff_dvd)
  then have chk: "num_rockets div ?n * ?n = num_rockets" by (rule dvd_div_mult_self)
  show ?thesis
    unfolding split_node_lists_def Let_def
    by (simp only: if_True if_False if_list_Some [OF assms(2)] option.case
        sorted_set_eq [OF assms(1)] d sum.case chk simp_thms)
qed

lemma split_serial_concat:
  assumes "set_order iter tnl" and "tnl \<noteq> []"
    and "split_node_lists iter num_rockets (Some tnl) ppn True = Inr (node_lists, sub_nproc_list)"
  shows "concat (map share_nodes node_lists)
           = py_repeat (distinct_sorted tnl) (num_rockets div int (length (distinct_sorted tnl)))"
proof (cases "num_rockets mod int (length (distinct_sorted tnl)) = 0")
  case True
  show ?thesis
    using assms(3) split_serial_result [OF assms(1,2) True, of ppn]
    by (auto simp add: concat_singletons simp del: map_map)
next
  case False
  then show ?thesis
    using assms(3) split_serial_indivisible [OF assms(1,2), of num_rockets ppn] by simp
qed

lemma split_parallel_concat:
  assumes "set_order iter tnl" and "tnl \<noteq> []" and "1 \<le> num_rockets"
    and "split_node_lists iter num_rockets (Some tnl) ppn False = Inr (node_lists, sub_nproc_list)"
  shows "concat (map share_nodes node_lists) = distinct_sorted tnl"
proof -
  let ?orig = "distinct_sorted tnl"
  define m where "m = nat num_rockets"
  define k where "k = length ?orig div m"
  have m: "0 < m" "num_rockets = int m" using assms(3) by (simp_all add: m_def)
  have dv: "int (length ?orig) mod num_rockets = 0"
  proof (rule ccontr)
    assume "int (length ?orig) mod num_rockets \<noteq> 0"
    moreover have "num_rockets \<noteq> 0" using assms(3) by simp
    ultimately have "split_node_lists iter num_rockets (Some tnl) ppn False = Inl ValueError"
      using assms(1,2) by (intro split_parallel_indivisible)
    then show False using assms(4) by simp
  qed
  then have "length ?orig mod m = 0"
    using m by (metis of_nat_0 of_nat_eq_iff zmod_int)
  then have len: "length ?orig = m * k" unfolding k_def by (metis mult_div_mod_eq add.right_neutral)
  have k: "0 < k" using distinct_sorted_nonempty [OF assms(2)] len by (cases k) simp_all
  have "node_lists = map (\<lambda>j. Some (take k (drop (j * k) ?orig))) [0 ..< m]"
    using split_parallel_eq [OF assms(1,2) k m(1) len, of ppn] assms(4) m(2) by simp
  then show ?thesis using concat_slices [OF len] by simp
qed

lemma neg_le_mult_neg: "(a::int) < 0 \<Longrightarrow> b < 0 \<Longrightarrow> - a \<le> a * b"
proof -
  assume a: "a < 0" and b: "b < 0"
  have "(- a) * 1 \<le> (- a) * (- b)" using a b by (intro mult_left_mono) simp_all
  then show ?thesis by simp
qed

lemma py_range_down_empty:
  assumes "d < 0" and "- d \<le> stop"
  shows "py_range 0 stop d = Inr []"
proof -
  have "(0 - stop - d - 1) div (- d) < 0"
    using assms by (simp add: div_neg_pos_less0)
  then show ?thesis using assms(1) by (simp add: py_range_def)
qed

lemma split_parallel_nonpos:
  assumes "set_order iter tnl" and "tnl \<noteq> []" and "num_rockets < 1"
    and "split_node_lists iter num_rockets (Some tnl) ppn False = Inr (node_lists, sub_nproc_list)"
  shows "node_lists = []"
proof -
  let ?n = "int (length (distinct_sorted tnl))"
  have n: "0 < ?n" using distinct_sorted_nonempty [OF assms(2)] by simp
  have nz: "num_rockets \<noteq> 0"
  proof
    assume "num_rockets = 0"
    then have "split_node_lists iter num_rockets (Some tnl) ppn False = Inl ZeroDivisionError"
      unfolding split_node_lists_def Let_def
      by (simp add: if_list_Some [OF assms(2)] py_div_def)
    then show False using assms(4) by simp
  qed
  then have neg: "num_rockets < 0" using assms(3) by simp
  have d: "py_div ?n num_rockets = Inr (?n div num_rockets)"
    using nz by (simp add: py_div_def)
  have chk: "?n div num_rockets * num_rockets = ?n"
  proof (rule ccontr)
    assume "?n div num_rockets * num_rockets \<noteq> ?n"
    then have "?n mod num_rockets \<noteq> 0" by (metis dvd_div_mult_self mod_eq_0_iff_dvd)
    then have "split_node_lists iter num_rockets (Some tnl) ppn False = Inl ValueError"
      using assms(1,2) nz by (intro split_parallel_indivisible)
    then show False using assms(4) by simp
  qed
  have s: "?n div num_rockets < 0" using n neg by (simp add: neg_imp_zdiv_neg_iff)
  have "- (?n div num_rockets) \<le> ?n div num_rockets * num_rockets"
    by (rule neg_le_mult_neg [OF s neg])
  then have b: "- (?n div num_rockets) \<le> ?n" by (simp only: chk)
  have r: "py_range 0 ?n (?n div num_rockets) = Inr []"
    by (rule py_range_down_empty [OF s b])
  have "split_node_lists iter num_rockets (Some tnl) ppn False
          = Inr ([], py_repeat [?n div num_rockets * ppn] num_rockets)"
    unfolding split_node_lists_def Let_def
    by (simp only: if_False if_list_Some [OF assms(2)] option.case sorted_set_eq [OF assms(1)]
        d sum.case chk r simp_thms list.map)
  then show ?thesis using assms(4) by simp
qed

subsection \<open>One step of the scan, and the scan of a snapshot\<close>

lemma scan_Cons_skip: "\<not> live w (pid, lid) \<Longrightarrow> scan w ((pid, lid) # rest) = scan w rest"
  by (simp add: live_def try_body_def os_kill_def)

lemma scan_Cons_live:
  "live w (pid, lid) \<Longrightarrow>
   scan w ((pid, lid) # rest) =
     (case except_OSError (ping_launch_exn w lid) of
        Some e \<Rightarrow> ([(pid, lid)], Some e)
      | None \<Rightarrow> ((pid, lid) # fst (scan w rest), snd (scan w rest)))"
  by (simp add: live_def try_body_def os_kill_def split: option.splits)

declare scan.simps(2) [simp del]

lemma except_OSError_None: "except_OSError r = None \<longleftrightarrow> r = None \<or> r = Some OSError"
  by (cases r rule: except_OSError.cases) simp_all

lemma except_OSError_Some: "except_OSError r = Some e \<Longrightarrow> r = Some e \<and> e \<noteq> OSError"
  by (cases r rule: except_OSError.cases) simp_all

lemma scan_append:
  "scan w (xs @ ys) =
     (case snd (scan w xs) of
        Some e \<Rightarrow> scan w xs
      | None \<Rightarrow> (fst (scan w xs) @ fst (scan w ys), snd (scan w ys)))"
proof (induction xs)
  case Nil
  show ?case by simp
next
  case (Cons x xs)
  obtain pid lid where x: "x = (pid, lid)" by (cases x)
  show ?case
  proof (cases "live w (pid, lid)")
    case True
    then show ?thesis using Cons
      by (simp add: x scan_Cons_live split: option.splits)
  next
    case False
    then show ?thesis using Cons by (simp add: x scan_Cons_skip split: option.splits)
  qed
qed

lemma scan_filter_live: "scan w (filter (live w) entries) = scan w entries"
proof (induction entries)
  case Nil
  show ?case by simp
next
  case (Cons x xs)
  obtain pid lid where x: "x = (pid, lid)" by (cases x)
  show ?case
  proof (cases "live w (pid, lid)")
    case True
    then show ?thesis using Cons by (simp add: x scan_Cons_live split: option.splits)
  next
    case False
    then show ?thesis using Cons by (simp add: x scan_Cons_skip split: option.splits)
  qed
qed

lemma scan_calls_live: "e \<in> set (fst (scan w entries)) \<Longrightarrow> live w e \<and> e \<in> set entries"
proof (induction entries)
  case Nil
  then show ?case by simp
next
  case (Cons x xs)
  obtain pid lid where x: "x = (pid, lid)" by (cases x)
  show ?case
  proof (cases "live w (pid, lid)")
    case True
    then show ?thesis using Cons
      by (auto simp add: x scan_Cons_live split: option.splits)
  next
    case False
    then show ?thesis using Cons by (simp add: x scan_Cons_skip split: option.splits)
  qed
qed

lemma scan_raises_from_ping:
  "snd (scan w entries) = Some e \<Longrightarrow>
   e \<noteq> OSError \<and> (\<exists>en \<in> set entries. live w en \<and> ping_launch_exn w (snd en) = Some e)"
proof (induction entries)
  case Nil
  then show ?case by simp
next
  case (Cons x xs)
  obtain pid lid where x: "x = (pid, lid)" by (cases x)
  show ?case
  proof (cases "live w (pid, lid)")
    case True
    then show ?thesis using Cons
      by (auto simp add: x scan_Cons_live split: option.splits dest: except_OSError_Some)
  next
    case False
    then show ?thesis using Cons by (simp add: x scan_Cons_skip split: option.splits)
  qed
qed

lemma scan_no_raise:
  "\<forall>en \<in> set entries. live w en \<longrightarrow> ping_launch_exn w (snd en) = None \<or> ping_launch_exn w (snd en) = Some OSError
   \<Longrightarrow> scan w entries = (filter (live w) entries, None)"
proof (induction entries)
  case Nil
  show ?case by simp
next
  case (Cons x xs)
  obtain pid lid where x: "x = (pid, lid)" by (cases x)
  show ?case
  proof (cases "live w (pid, lid)")
    case True
    with Cons.prems have "except_OSError (ping_launch_exn w lid) = None"
      by (simp add: x except_OSError_None)
    then show ?thesis using True Cons by (simp add: x scan_Cons_live split: option.splits)
  next
    case False
    then show ?thesis using Cons by (simp add: x scan_Cons_skip split: option.splits)
  qed
qed

subsection \<open>The actions of the orchestrator and the invariant of its program points\<close>





lemma orch_inv_init: "orch_inv n init"
  by (simp add: orch_inv_def init_def)

lemma orch_inv_orch_step: "orch_inv n s \<Longrightarrow> orch_inv n (orch_step n s)"
  by (auto simp add: orch_inv_def orch_step_def split: orch_pc.splits)

lemma orch_inv_mon_step: "orch_inv n s \<Longrightarrow> orch_inv n (mon_step outcome s)"
  by (auto simp add: orch_inv_def mon_step_def split: orch_pc.splits mon_pc.splits option.splits)

lemma orch_inv_step: "orch_inv n s \<Longrightarrow> orch_inv n (step n s t)"
  by (cases t) (simp_all add: orch_inv_orch_step orch_inv_mon_step)

lemma orch_inv_run: "orch_inv n s \<Longrightarrow> orch_inv n (run n s ts)"
  by (induction ts arbitrary: s) (simp_all add: orch_inv_step)

lemma mon_step_orch: "opc (mon_step outcome s) = opc s"
  by (simp add: mon_step_def split: mon_pc.splits option.splits)

lemma orch_step_at: "opc s = orch_at n c \<Longrightarrow> opc (orch_step n s) = orch_at n (Suc c)"
  by (auto simp add: orch_at_def orch_step_def split: if_splits)

lemma opc_run:
  "opc s = orch_at n c \<Longrightarrow> opc (run n s sched) = orch_at n (c + orch_ticks sched)"
proof (induction sched arbitrary: s c)
  case Nil
  then show ?case by (simp add: orch_ticks_def)
next
  case (Cons t ts)
  show ?case
  proof (cases t)
    case Orch
    have "opc (orch_step n s) = orch_at n (Suc c)" by (rule orch_step_at [OF Cons.prems])
    then have "opc (run n (orch_step n s) ts) = orch_at n (Suc c + orch_ticks ts)"
      by (rule Cons.IH)
    then show ?thesis using Orch by (simp add: orch_ticks_def)
  next
    case (Mon outcome)
    have "opc (mon_step outcome s) = orch_at n c" using Cons.prems by (simp add: mon_step_orch)
    then have "opc (run n (mon_step outcome s) ts) = orch_at n (c + orch_ticks ts)"
      by (rule Cons.IH)
    then show ?thesis using Mon by (simp add: orch_ticks_def)
  qed
qed

lemma opc_run_init: "opc (run n init sched) = orch_at n (orch_ticks sched)"
  using opc_run [of init n 0 sched] by (simp add: init_def orch_at_def)

section \<open>Node allocation\<close>

text \<open>
  C2. Parallel mode, a node list that is not empty, \<open>num_rockets \<ge> 1\<close>, and the number
  of distinct nodes divisible by \<open>num_rockets\<close>: \<^verbatim>\<open>split_node_lists\<close> returns
  \<open>num_rockets\<close> shares. Share \<open>i\<close> is the slice of the deduplicated sorted input that
  starts at \<open>i * size\<close> and has \<open>size = nnodes div num_rockets\<close> nodes, so the slices are
  contiguous and of equal size; their concatenation is the deduplicated sorted input,
  so each node is in exactly one slice; and every processor count is \<open>size * ppn\<close>.
\<close>

theorem split_parallel_partition:
  assumes "set_order iter tnl" and "tnl \<noteq> []" and "1 \<le> num_rockets"
    and "int (length (distinct_sorted tnl)) mod num_rockets = 0"
  shows "\<exists>node_lists sub_nproc_list.
      split_node_lists iter num_rockets (Some tnl) ppn False = Inr (node_lists, sub_nproc_list)
    \<and> int (length node_lists) = num_rockets
    \<and> int (length sub_nproc_list) = num_rockets
    \<and> (let size = nat (int (length (distinct_sorted tnl)) div num_rockets) in
        (\<forall>i < length node_lists.
            node_lists ! i = Some (take size (drop (i * size) (distinct_sorted tnl)))
          \<and> length (share_nodes (node_lists ! i)) = size)
      \<and> (\<forall>p \<in> set sub_nproc_list. p = int size * ppn))
    \<and> concat (map share_nodes node_lists) = distinct_sorted tnl
    \<and> distinct (concat (map share_nodes node_lists))"
proof -
  let ?orig = "distinct_sorted tnl"
  define m where "m = nat num_rockets"
  define k where "k = length ?orig div m"
  have m: "0 < m" "num_rockets = int m" using assms(3) by (simp_all add: m_def)
  have "length ?orig mod m = 0"
    using assms(4) m by (metis of_nat_0 of_nat_eq_iff zmod_int)
  then have len: "length ?orig = m * k" unfolding k_def by (metis mult_div_mod_eq add.right_neutral)
  have k: "0 < k" using distinct_sorted_nonempty [OF assms(2)] len by (cases k) simp_all
  have size: "nat (int (length ?orig) div num_rockets) = k"
  proof -
    have "int (m * k) div int m = int (m * k div m)" by (rule zdiv_int [symmetric])
    then show ?thesis using m len by (simp del: of_nat_mult)
  qed
  define node_lists where
    "node_lists = map (\<lambda>j. Some (take k (drop (j * k) ?orig))) [0 ..< m]"
  define sub_nproc_list where "sub_nproc_list = replicate m (int k * ppn)"
  have eq: "split_node_lists iter num_rockets (Some tnl) ppn False = Inr (node_lists, sub_nproc_list)"
    using split_parallel_eq [OF assms(1,2) k m(1) len] m(2)
    by (simp add: node_lists_def sub_nproc_list_def)
  have slice_len: "length (take k (drop (i * k) ?orig)) = k" if "i < m" for i
  proof -
    from that have "Suc i * k \<le> m * k" by (intro mult_le_mono1) simp
    then show ?thesis using len by simp
  qed
  have l1: "int (length node_lists) = num_rockets" by (simp add: node_lists_def m(2))
  have l2: "int (length sub_nproc_list) = num_rockets" by (simp add: sub_nproc_list_def m(2))
  have sl: "\<forall>i < length node_lists.
              node_lists ! i = Some (take k (drop (i * k) ?orig))
            \<and> length (share_nodes (node_lists ! i)) = k"
    using slice_len by (simp add: node_lists_def)
  have np: "\<forall>p \<in> set sub_nproc_list. p = int k * ppn" by (simp add: sub_nproc_list_def)
  have cc: "concat (map share_nodes node_lists) = ?orig"
    unfolding node_lists_def by (rule concat_slices [OF len])
  have dd: "distinct (concat (map share_nodes node_lists))"
    using distinct_sorted_props [of tnl] by (simp only: cc)
  show ?thesis
    unfolding size Let_def using eq l1 l2 sl np cc dd by blast
qed

theorem split_parallel_partition_witness:
  "set_order remdups [''n1'', ''n2'', ''n3'', ''n4'', ''n5'', ''n6'', ''n7'', ''n8'']
   \<and> int (length (distinct_sorted [''n1'', ''n2'', ''n3'', ''n4'', ''n5'', ''n6'', ''n7'', ''n8''])) mod 4 = 0
   \<and> (\<exists>node_lists sub_nproc_list.
        split_node_lists remdups 4
          (Some [''n1'', ''n2'', ''n3'', ''n4'', ''n5'', ''n6'', ''n7'', ''n8'']) 24 False
          = Inr (node_lists, sub_nproc_list)
      \<and> int (length node_lists) = 4
      \<and> int (length sub_nproc_list) = 4
      \<and> (\<forall>i < length node_lists. length (share_nodes (node_lists ! i)) = 2)
      \<and> (\<forall>p \<in> set sub_nproc_list. p = 48)
      \<and> concat (map share_nodes node_lists)
          = [''n1'', ''n2'', ''n3'', ''n4'', ''n5'', ''n6'', ''n7'', ''n8''])"
proof -
  let ?T = "[''n1'', ''n2'', ''n3'', ''n4'', ''n5'', ''n6'', ''n7'', ''n8'']"
  have h1: "set_order remdups ?T" by (simp add: set_order_def)
  have ds: "distinct_sorted ?T = ?T" by code_simp
  have h4: "int (length (distinct_sorted ?T)) mod 4 = 0" by (simp add: ds)
  show ?thesis
    using h1 h4 split_parallel_partition [OF h1 _ _ h4, of 24] by (simp add: ds, blast)
qed

text \<open>
  C9. Without a node list \<^verbatim>\<open>split_node_lists\<close> never raises. It returns \<open>num_rockets\<close>
  entries \<open>None\<close> (no node list) and \<open>num_rockets\<close> processor counts, each \<open>ppn\<close> in parallel
  mode and \<open>1\<close> in serial mode. (\<^verbatim>\<open>[x] * n\<close> is the empty list for a negative \<open>n\<close>: the
  lists have \<open>nat num_rockets\<close> entries, which is \<open>num_rockets\<close> for a number of sub jobs.)
\<close>

theorem split_without_node_list:
  "\<exists>node_lists sub_nproc_list.
      split_node_lists iter num_rockets None ppn serial_mode = Inr (node_lists, sub_nproc_list)
    \<and> node_lists = replicate (nat num_rockets) None
    \<and> sub_nproc_list = replicate (nat num_rockets) (if serial_mode then 1 else ppn)
    \<and> (0 \<le> num_rockets \<longrightarrow>
          int (length node_lists) = num_rockets \<and> int (length sub_nproc_list) = num_rockets)"
  by (simp add: split_absent)

theorem split_without_node_list_witness:
  "split_node_lists remdups 4 None 16 False = Inr ([None, None, None, None], [16, 16, 16, 16])
   \<and> split_node_lists remdups 4 None 16 True = Inr ([None, None, None, None], [1, 1, 1, 1])"
  using split_without_node_list [of remdups 4 16 False] split_without_node_list [of remdups 4 16 True]
  by (auto simp add: numeral_eq_Suc)

text \<open>
  C10. An empty node list gives the result of an absent one, in both modes and for every
  \<open>num_rockets\<close> and \<open>ppn\<close>: nothing is divided, nothing is raised, and the shares have no
  node list.
\<close>

theorem split_empty_node_list:
  "split_node_lists iter num_rockets (Some []) ppn serial_mode
     = split_node_lists iter num_rockets None ppn serial_mode
   \<and> split_node_lists iter num_rockets (Some []) ppn serial_mode
     = Inr (replicate (nat num_rockets) None,
            replicate (nat num_rockets) (if serial_mode then 1 else ppn))"
  by (simp add: split_absent split_empty)

theorem split_empty_node_list_witness:
  "split_node_lists remdups 3 (Some []) 24 False = Inr ([None, None, None], [24, 24, 24])
   \<and> split_node_lists remdups 3 (Some []) 24 True = Inr ([None, None, None], [1, 1, 1])"
  using split_empty_node_list [of remdups 3 24 False] split_empty_node_list [of remdups 3 24 True]
  by (auto simp add: numeral_eq_Suc)

text \<open>
  C8. The result of \<^verbatim>\<open>split_node_lists\<close> does not depend on the order in which the set of
  nodes is iterated: two calls with the same arguments return the same result. The node
  order the function works with, \<^verbatim>\<open>orig_node_list\<close>, is the deduplicated input in sorted
  order, and the node lists it returns follow that order: in parallel mode (for
  \<open>num_rockets \<ge> 1\<close>) their concatenation is the deduplicated sorted input, in serial mode
  it is that list repeated \<open>num_rockets div nnodes\<close> times. (For \<open>num_rockets < 1\<close> a call in
  parallel mode that returns has no node lists.)
\<close>

theorem split_deterministic:
  assumes "\<forall>tnl. total_node_list = Some tnl \<longrightarrow> set_order iter tnl \<and> set_order iter' tnl"
  shows "split_node_lists iter num_rockets total_node_list ppn serial_mode
           = split_node_lists iter' num_rockets total_node_list ppn serial_mode
       \<and> (\<forall>tnl. total_node_list = Some tnl \<longrightarrow>
              sorted_set iter tnl = distinct_sorted tnl
            \<and> sorted (sorted_set iter tnl) \<and> distinct (sorted_set iter tnl)
            \<and> set (sorted_set iter tnl) = set tnl)
       \<and> (\<forall>tnl node_lists sub_nproc_list.
              total_node_list = Some tnl \<and> tnl \<noteq> []
            \<and> split_node_lists iter num_rockets total_node_list ppn serial_mode
                = Inr (node_lists, sub_nproc_list) \<longrightarrow>
              concat (map share_nodes node_lists)
                = (if serial_mode
                   then py_repeat (distinct_sorted tnl)
                          (num_rockets div int (length (distinct_sorted tnl)))
                   else if 1 \<le> num_rockets then distinct_sorted tnl
                   else []))"
proof (intro conjI allI impI)
  show "split_node_lists iter num_rockets total_node_list ppn serial_mode
           = split_node_lists iter' num_rockets total_node_list ppn serial_mode"
  proof (cases total_node_list)
    case None
    then show ?thesis by (simp add: split_absent)
  next
    case (Some tnl)
    with assms have "set_order iter tnl" "set_order iter' tnl" by simp_all
    then show ?thesis unfolding Some by (rule split_deterministic_Some)
  qed
next
  fix tnl
  assume "total_node_list = Some tnl"
  with assms have o: "set_order iter tnl" by simp
  show "sorted_set iter tnl = distinct_sorted tnl" by (rule sorted_set_eq [OF o])
  show "sorted (sorted_set iter tnl)"
    using distinct_sorted_props [of tnl] by (simp add: sorted_set_eq [OF o])
  show "distinct (sorted_set iter tnl)"
    using distinct_sorted_props [of tnl] by (simp add: sorted_set_eq [OF o])
  show "set (sorted_set iter tnl) = set tnl"
    using distinct_sorted_props [of tnl] by (simp add: sorted_set_eq [OF o])
next
  fix tnl node_lists sub_nproc_list
  assume a: "total_node_list = Some tnl \<and> tnl \<noteq> []
            \<and> split_node_lists iter num_rockets total_node_list ppn serial_mode
                = Inr (node_lists, sub_nproc_list)"
  from a have t: "total_node_list = Some tnl" by (rule conjunct1)
  from a have ne: "tnl \<noteq> []" by blast
  from a have "split_node_lists iter num_rockets total_node_list ppn serial_mode
                 = Inr (node_lists, sub_nproc_list)" by blast
  then have r: "split_node_lists iter num_rockets (Some tnl) ppn serial_mode
                  = Inr (node_lists, sub_nproc_list)" unfolding t .
  from assms t have o: "set_order iter tnl" by simp
  show "concat (map share_nodes node_lists)
          = (if serial_mode
             then py_repeat (distinct_sorted tnl)
                    (num_rockets div int (length (distinct_sorted tnl)))
             else if 1 \<le> num_rockets then distinct_sorted tnl
             else [])"
  proof (cases serial_mode)
    case True
    then show ?thesis using split_serial_concat [OF o ne] r by simp
  next
    case False
    show ?thesis
    proof (cases "1 \<le> num_rockets")
      case True
      then show ?thesis using split_parallel_concat [OF o ne True] r False by simp
    next
      case nonpos: False
      then have "num_rockets < 1" by simp
      then have "node_lists = []" using split_parallel_nonpos [OF o ne] r False by simp
      then show ?thesis using False nonpos by simp
    qed
  qed
qed

theorem split_deterministic_witness:
  "split_node_lists remdups 2 (Some [''n3'', ''n1'', ''n3'', ''n2'', ''n4'']) 24 False
     = Inr ([Some [''n1'', ''n2''], Some [''n3'', ''n4'']], [48, 48])
   \<and> split_node_lists (\<lambda>xs. rev (remdups xs)) 2 (Some [''n3'', ''n1'', ''n3'', ''n2'', ''n4'']) 24 False
     = Inr ([Some [''n1'', ''n2''], Some [''n3'', ''n4'']], [48, 48])
   \<and> sorted_set remdups [''n3'', ''n1'', ''n3'', ''n2'', ''n4''] = [''n1'', ''n2'', ''n3'', ''n4'']
   \<and> concat (map share_nodes [Some [''n1'', ''n2''], Some [''n3'', ''n4'']])
       = distinct_sorted [''n3'', ''n1'', ''n3'', ''n2'', ''n4'']"
proof -
  let ?T = "[''n3'', ''n1'', ''n3'', ''n2'', ''n4'']"
  have o: "\<forall>tnl. Some ?T = Some tnl \<longrightarrow> set_order remdups tnl \<and> set_order (\<lambda>xs. rev (remdups xs)) tnl"
    by (simp add: set_order_def)
  have ds: "distinct_sorted ?T = [''n1'', ''n2'', ''n3'', ''n4'']" by code_simp
  have e: "split_node_lists remdups 2 (Some ?T) 24 False
             = Inr ([Some [''n1'', ''n2''], Some [''n3'', ''n4'']], [48, 48])"
    by code_simp
  show ?thesis
    using split_deterministic [OF o, of 2 24 False] e by (simp add: ds)
qed

text \<open>
  C5. Parallel mode, a node list that is not empty, \<open>num_rockets \<ge> 1\<close>, and the number
  of distinct nodes not divisible by \<open>num_rockets\<close>: \<^verbatim>\<open>split_node_lists\<close> raises
  \<^verbatim>\<open>ValueError\<close> and returns no shares. The orchestrator calls it first, so the run ends
  with that exception before it has made any call: the manager server is not started
  and no worker process is spawned, whatever the outcomes of the library calls.
\<close>

theorem split_parallel_indivisible_fails:
  assumes "set_order iter tnl" and "tnl \<noteq> []" and "1 \<le> num_rockets"
    and "int (length (distinct_sorted tnl)) mod num_rockets \<noteq> 0"
  shows "split_node_lists iter num_rockets (Some tnl) ppn False = Inl ValueError
       \<and> launch_job_packing_processes out iter num_rockets (Some tnl) ppn False = ([], Inl ValueError)"
proof -
  have "num_rockets \<noteq> 0" using assms(3) by simp
  then have "split_node_lists iter num_rockets (Some tnl) ppn False = Inl ValueError"
    using assms by (intro split_parallel_indivisible)
  then show ?thesis by (simp add: launch_job_packing_processes_def)
qed

theorem split_parallel_indivisible_fails_witness:
  "split_node_lists remdups 3 (Some [''n1'', ''n2'', ''n3'', ''n4'', ''n5'', ''n6'', ''n7'', ''n8'']) 24 False
     = Inl ValueError
   \<and> launch_job_packing_processes no_raise remdups 3
       (Some [''n1'', ''n2'', ''n3'', ''n4'', ''n5'', ''n6'', ''n7'', ''n8'']) 24 False
     = ([], Inl ValueError)"
proof -
  let ?T = "[''n1'', ''n2'', ''n3'', ''n4'', ''n5'', ''n6'', ''n7'', ''n8'']"
  have h1: "set_order remdups ?T" by (rule set_order_remdups)
  have ds: "distinct_sorted ?T = ?T" by code_simp
  have h4: "int (length (distinct_sorted ?T)) mod 3 \<noteq> 0" by (simp add: ds)
  show ?thesis
    using split_parallel_indivisible_fails [OF h1 _ _ h4, of 24 no_raise] by simp
qed

text \<open>
  C6. Serial mode, a node list that is not empty, \<open>num_rockets \<ge> 1\<close>. If \<open>num_rockets\<close> is
  divisible by the number of distinct nodes, \<^verbatim>\<open>split_node_lists\<close> returns \<open>num_rockets\<close>
  shares: share \<open>i\<close> has the one node at position \<open>i mod nnodes\<close> of the deduplicated sorted
  input, so the sequence is repeated cyclically and each node goes to
  \<open>num_rockets div nnodes\<close> sub jobs, and every processor count is \<open>1\<close>. Otherwise it raises
  \<^verbatim>\<open>ValueError\<close>.
\<close>

theorem split_serial:
  assumes "set_order iter tnl" and "tnl \<noteq> []" and "1 \<le> num_rockets"
  shows "(num_rockets mod int (length (distinct_sorted tnl)) = 0 \<longrightarrow>
          (\<exists>node_lists sub_nproc_list.
              split_node_lists iter num_rockets (Some tnl) ppn True = Inr (node_lists, sub_nproc_list)
            \<and> int (length node_lists) = num_rockets
            \<and> int (length sub_nproc_list) = num_rockets
            \<and> (\<forall>i < length node_lists.
                  node_lists ! i
                    = Some [distinct_sorted tnl ! (i mod length (distinct_sorted tnl))])
            \<and> concat (map share_nodes node_lists)
                = py_repeat (distinct_sorted tnl) (num_rockets div int (length (distinct_sorted tnl)))
            \<and> (\<forall>node \<in> set (distinct_sorted tnl).
                  int (count_list node_lists (Some [node]))
                    = num_rockets div int (length (distinct_sorted tnl)))
            \<and> (\<forall>p \<in> set sub_nproc_list. p = 1)))
       \<and> (num_rockets mod int (length (distinct_sorted tnl)) \<noteq> 0 \<longrightarrow>
            split_node_lists iter num_rockets (Some tnl) ppn True = Inl ValueError)"
proof (intro conjI impI)
  let ?orig = "distinct_sorted tnl"
  let ?n = "int (length ?orig)"
  assume dv: "num_rockets mod ?n = 0"
  define q where "q = nat (num_rockets div ?n)"
  have n: "0 < length ?orig" by (rule distinct_sorted_nonempty [OF assms(2)])
  have "0 \<le> num_rockets div ?n" using assms(3) n by (simp add: pos_imp_zdiv_nonneg_iff)
  then have qq: "num_rockets div ?n = int q" by (simp add: q_def)
  have "?n dvd num_rockets" using dv by (simp add: mod_eq_0_iff_dvd)
  then have "num_rockets div ?n * ?n = num_rockets" by (rule dvd_div_mult_self)
  then have nr: "num_rockets = int (q * length ?orig)" using qq by simp
  define node_lists where "node_lists = map (\<lambda>node. Some [node]) (concat (replicate q ?orig))"
  define sub_nproc_list where "sub_nproc_list = replicate (q * length ?orig) (1::int)"
  have eq: "split_node_lists iter num_rockets (Some tnl) ppn True = Inr (node_lists, sub_nproc_list)"
    unfolding node_lists_def sub_nproc_list_def by (rule split_serial_eq [OF assms(1,2) nr])
  have l1: "int (length node_lists) = num_rockets"
    by (simp add: node_lists_def length_concat_replicate nr del: of_nat_mult)
  have l2: "int (length sub_nproc_list) = num_rockets"
    by (simp add: sub_nproc_list_def nr del: of_nat_mult)
  have nth: "\<forall>i < length node_lists. node_lists ! i = Some [?orig ! (i mod length ?orig)]"
    by (simp add: node_lists_def length_concat_replicate nth_concat_replicate)
  have cc: "concat (map share_nodes node_lists) = py_repeat ?orig (num_rockets div ?n)"
    unfolding qq by (simp add: node_lists_def py_repeat_def comp_def)
  have cnt: "\<forall>node \<in> set ?orig. int (count_list node_lists (Some [node])) = num_rockets div ?n"
  proof
    fix node assume "node \<in> set ?orig"
    then have one: "count_list ?orig node = 1"
      using distinct_sorted_props [of tnl] by (simp add: count_list_distinct)
    have "inj (\<lambda>node::node. Some [node])" by (simp add: inj_def)
    then have "count_list node_lists (Some [node]) = count_list (concat (replicate q ?orig)) node"
      unfolding node_lists_def by (rule count_list_map_inj)
    then show "int (count_list node_lists (Some [node])) = num_rockets div ?n"
      by (simp add: count_concat_replicate one qq)
  qed
  have np: "\<forall>p \<in> set sub_nproc_list. p = 1" by (simp add: sub_nproc_list_def)
  show "\<exists>node_lists sub_nproc_list.
              split_node_lists iter num_rockets (Some tnl) ppn True = Inr (node_lists, sub_nproc_list)
            \<and> int (length node_lists) = num_rockets
            \<and> int (length sub_nproc_list) = num_rockets
            \<and> (\<forall>i < length node_lists.
                  node_lists ! i
                    = Some [distinct_sorted tnl ! (i mod length (distinct_sorted tnl))])
            \<and> concat (map share_nodes node_lists)
                = py_repeat (distinct_sorted tnl) (num_rockets div int (length (distinct_sorted tnl)))
            \<and> (\<forall>node \<in> set (distinct_sorted tnl).
                  int (count_list node_lists (Some [node]))
                    = num_rockets div int (length (distinct_sorted tnl)))
            \<and> (\<forall>p \<in> set sub_nproc_list. p = 1)"
    using eq l1 l2 nth cc cnt np by blast
next
  assume "num_rockets mod int (length (distinct_sorted tnl)) \<noteq> 0"
  then show "split_node_lists iter num_rockets (Some tnl) ppn True = Inl ValueError"
    by (rule split_serial_indivisible [OF assms(1,2)])
qed

theorem split_serial_witness:
  "(\<exists>node_lists sub_nproc_list.
      split_node_lists remdups 4 (Some [''b'', ''a'', ''b'']) 24 True = Inr (node_lists, sub_nproc_list)
    \<and> length node_lists = 4
    \<and> length sub_nproc_list = 4
    \<and> concat (map share_nodes node_lists) = [''a'', ''b'', ''a'', ''b'']
    \<and> count_list node_lists (Some [''a'']) = 2
    \<and> count_list node_lists (Some [''b'']) = 2
    \<and> (\<forall>p \<in> set sub_nproc_list. p = 1))
   \<and> split_node_lists remdups 3 (Some [''b'', ''a'', ''b'']) 24 True = Inl ValueError"
proof -
  let ?T = "[''b'', ''a'', ''b'']"
  have h1: "set_order remdups ?T" by (rule set_order_remdups)
  have ds: "distinct_sorted ?T = [''a'', ''b'']" by code_simp
  have rp: "py_repeat [''a'', ''b''] 2 = [''a'', ''b'', ''a'', ''b'']" by code_simp
  have a: "split_node_lists remdups 3 (Some ?T) 24 True = Inl ValueError"
    using split_serial [OF h1, of 3 24] by (simp add: ds)
  show ?thesis
    using a split_serial [OF h1, of 4 24] by (simp add: ds rp, blast)
qed

section \<open>Liveness monitor\<close>

text \<open>
  C3, as the code has it. The loop catches \<^verbatim>\<open>OSError\<close> and nothing else. If no
  \<^verbatim>\<open>ping_launch\<close> of a scan raises anything but \<^verbatim>\<open>OSError\<close>, the scan raises nothing and
  every entry of the snapshot with a launch id and a live process is pinged, in the order
  of the snapshot: an \<^verbatim>\<open>OSError\<close> of one entry does not keep the later entries from being
  processed.
\<close>

theorem scan_isolates_OSError:
  assumes "\<forall>en \<in> set entries. live w en \<longrightarrow>
             ping_launch_exn w (snd en) = None \<or> ping_launch_exn w (snd en) = Some OSError"
  shows "snd (scan w entries) = None \<and> fst (scan w entries) = filter (live w) entries"
  using scan_no_raise [OF assms] by simp

theorem scan_isolates_OSError_witness:
  "snd (scan one_dead [(7, Some 1), (8, Some 3), (9, None), (10, Some 0), (11, Some 4)]) = None
   \<and> fst (scan one_dead [(7, Some 1), (8, Some 3), (9, None), (10, Some 0), (11, Some 4)])
       = [(8, Some 3), (11, Some 4)]"
  using scan_isolates_OSError [of "[(7, Some 1), (8, Some 3), (9, None), (10, Some 0), (11, Some 4)]" one_dead]
  by (simp add: one_dead_def live_def)

text \<open>
  C3 as stated fails: an exception of \<^verbatim>\<open>ping_launch\<close> that is not an \<^verbatim>\<open>OSError\<close> leaves the
  loop. Here the ping of the first entry raises, and the second entry, whose process is
  alive, is never pinged.
\<close>

theorem scan_aborts_on_other_error:
  "scan ping_fails [(100, Some 1), (101, Some 2)] = ([(100, Some 1)], Some OtherError)
   \<and> live ping_fails (101, Some 2)
   \<and> (101, Some 2) \<notin> set (fst (scan ping_fails [(100, Some 1), (101, Some 2)]))"
  by (simp add: ping_fails_def scan.simps try_body_def os_kill_def live_def)

text \<open>
  C7, as the code has it. If no \<^verbatim>\<open>ping_launch\<close> of the scan raises anything but
  \<^verbatim>\<open>OSError\<close>, the scan of a snapshot completes without raising. In every case an entry
  whose process does not exist, or whose launch id is absent, is never pinged, and the
  scan of a snapshot with such an entry is the scan of the snapshot without it: the entry
  raises nothing and changes nothing for the other entries. An exception leaves a scan
  only when the \<^verbatim>\<open>ping_launch\<close> of an entry with a live process raised it, and it is not
  an \<^verbatim>\<open>OSError\<close>; a scan of dead and absent entries only completes without a ping.
\<close>

theorem scan_skips_dead_and_absent:
  "((\<forall>en \<in> set entries. live w en \<longrightarrow>
        ping_launch_exn w (snd en) = None \<or> ping_launch_exn w (snd en) = Some OSError)
      \<longrightarrow> snd (scan w entries) = None)
   \<and> (\<forall>pid lid. \<not> proc_exists w pid \<or> \<not> lid_truthy lid \<longrightarrow>
        (pid, lid) \<notin> set (fst (scan w entries))
      \<and> scan w (before @ (pid, lid) # after) = scan w (before @ after))
   \<and> (\<forall>e. snd (scan w entries) = Some e \<longrightarrow>
          e \<noteq> OSError
        \<and> (\<exists>en \<in> set entries. live w en \<and> ping_launch_exn w (snd en) = Some e))
   \<and> ((\<forall>en \<in> set entries. \<not> live w en) \<longrightarrow> scan w entries = ([], None))"
proof (intro conjI allI impI)
  assume "\<forall>en \<in> set entries. live w en \<longrightarrow>
        ping_launch_exn w (snd en) = None \<or> ping_launch_exn w (snd en) = Some OSError"
  then have "scan w entries = (filter (live w) entries, None)" by (rule scan_no_raise)
  then show "snd (scan w entries) = None" by simp
next
  fix pid lid
  assume d: "\<not> proc_exists w pid \<or> \<not> lid_truthy lid"
  then have nl: "\<not> live w (pid, lid)" by (auto simp add: live_def)
  show "(pid, lid) \<notin> set (fst (scan w entries))"
    using nl scan_calls_live by blast
  have "scan w ((pid, lid) # after) = scan w after"
    by (rule scan_Cons_skip [OF nl])
  then show "scan w (before @ (pid, lid) # after) = scan w (before @ after)"
    by (simp add: scan_append split: option.splits)
next
  fix e
  assume "snd (scan w entries) = Some e"
  then have r: "e \<noteq> OSError \<and> (\<exists>en \<in> set entries. live w en \<and> ping_launch_exn w (snd en) = Some e)"
    by (rule scan_raises_from_ping)
  from r show "e \<noteq> OSError" by simp
  from r show "\<exists>en \<in> set entries. live w en \<and> ping_launch_exn w (snd en) = Some e" by simp
next
  assume a: "\<forall>en \<in> set entries. \<not> live w en"
  then have "filter (live w) entries = []" by (simp add: filter_empty_conv)
  then show "scan w entries = ([], None)"
    using scan_filter_live [of w entries] by simp
qed

theorem scan_skips_dead_and_absent_witness:
  "\<not> proc_exists one_dead 7
   \<and> snd (scan one_dead [(7, Some 1), (8, Some 3), (9, None), (11, Some 4)]) = None
   \<and> (7, Some 1) \<notin> set (fst (scan one_dead [(7, Some 1), (8, Some 3), (9, None), (11, Some 4)]))
   \<and> (9, None) \<notin> set (fst (scan one_dead [(7, Some 1), (8, Some 3), (9, None), (11, Some 4)]))
   \<and> scan one_dead [(7, Some 1), (8, Some 3), (9, None), (11, Some 4)]
       = scan one_dead [(8, Some 3), (11, Some 4)]
   \<and> scan one_dead [(7, Some 1), (9, None)] = ([], None)"
  using scan_skips_dead_and_absent [of "[(7, Some 1), (8, Some 3), (9, None), (11, Some 4)]" one_dead "[]" "[]"]
  by (simp add: one_dead_def scan.simps try_body_def os_kill_def live_def)

text \<open>
  C7 as stated fails: the scan of a snapshot with an entry whose process does not exist
  raises when the \<^verbatim>\<open>ping_launch\<close> of another entry raises an exception that is not an
  \<^verbatim>\<open>OSError\<close>. The dead entry is skipped, the ping of the second entry raises, and the
  scan ends there.
\<close>

theorem scan_raises_beside_dead_entry:
  "\<not> proc_exists dead_and_failing 7
   \<and> scan dead_and_failing [(7, Some 5), (100, Some 1), (101, Some 2)]
       = ([(100, Some 1)], Some OtherError)"
  by (simp add: dead_and_failing_def scan.simps try_body_def os_kill_def)

section \<open>Orchestrator\<close>




text \<open>
  C4, as the code has it. Under every schedule of the two threads the orchestrator
  joins every worker process, in order, then sets the stop event, then shuts the manager
  down, and it does so after \<open>n + 3\<close> steps of its own, whatever the ping thread has
  done by then: it does not join the ping thread. Until its step \<open>n + 2\<close> the event is
  not set; after it the event is set and the manager still runs; from step \<open>n + 3\<close> on
  the manager is shut down and the orchestrator has returned. So when the stop event is
  set every worker process has been joined, and the manager is shut down only after the
  event is set.
\<close>

theorem stop_after_joins_before_shutdown:
  "(stop_event (run n init sched) \<longrightarrow> joined (run n init sched) = [0 ..< n])
   \<and> (\<not> manager_running (run n init sched) \<longrightarrow> stop_event (run n init sched))
   \<and> (manager_running (run n init sched) \<or> opc (run n init sched) = AtReturn)
   \<and> (orch_ticks sched \<le> n + 1 \<longrightarrow>
          joined (run n init sched) = [0 ..< min n (orch_ticks sched)]
        \<and> \<not> stop_event (run n init sched) \<and> manager_running (run n init sched))
   \<and> (orch_ticks sched = n + 2 \<longrightarrow>
          joined (run n init sched) = [0 ..< n]
        \<and> stop_event (run n init sched) \<and> manager_running (run n init sched))
   \<and> (n + 3 \<le> orch_ticks sched \<longrightarrow>
          joined (run n init sched) = [0 ..< n]
        \<and> stop_event (run n init sched) \<and> \<not> manager_running (run n init sched)
        \<and> opc (run n init sched) = AtReturn)"
proof -
  let ?s = "run n init sched"
  have inv: "orch_inv n ?s" by (rule orch_inv_run [OF orch_inv_init])
  have at: "opc ?s = orch_at n (orch_ticks sched)" by (rule opc_run_init)
  have safety: "(stop_event ?s \<longrightarrow> joined ?s = [0 ..< n])
      \<and> (\<not> manager_running ?s \<longrightarrow> stop_event ?s)
      \<and> (manager_running ?s \<or> opc ?s = AtReturn)"
    using inv by (auto simp add: orch_inv_def split: orch_pc.splits)
  have early: "joined ?s = [0 ..< min n (orch_ticks sched)] \<and> \<not> stop_event ?s \<and> manager_running ?s"
    if "orch_ticks sched \<le> n + 1"
    using inv at that by (auto simp add: orch_inv_def orch_at_def min_def split: if_splits)
  have mid: "joined ?s = [0 ..< n] \<and> stop_event ?s \<and> manager_running ?s"
    if "orch_ticks sched = n + 2"
    using inv at that by (simp add: orch_inv_def orch_at_def)
  have late: "joined ?s = [0 ..< n] \<and> stop_event ?s \<and> \<not> manager_running ?s \<and> opc ?s = AtReturn"
    if "n + 3 \<le> orch_ticks sched"
    using inv at that by (simp add: orch_inv_def orch_at_def)
  show ?thesis using safety early mid late by blast
qed

theorem stop_after_joins_before_shutdown_witness:
  "orch_ticks [Orch, Mon None, Orch, Orch, Orch, Orch] = 2 + 3
   \<and> joined (run 2 init [Orch, Mon None, Orch, Orch, Orch, Orch]) = [0, 1]
   \<and> stop_event (run 2 init [Orch, Mon None, Orch, Orch, Orch, Orch])
   \<and> \<not> manager_running (run 2 init [Orch, Mon None, Orch, Orch, Orch, Orch])
   \<and> opc (run 2 init [Orch, Mon None, Orch, Orch, Orch, Orch]) = AtReturn
   \<and> mpc (run 2 init [Orch, Mon None, Orch, Orch, Orch, Orch]) = AtTest
   \<and> orch_ticks [Orch, Orch, Orch, Orch] = 2 + 2
   \<and> stop_event (run 2 init [Orch, Orch, Orch, Orch])
   \<and> manager_running (run 2 init [Orch, Orch, Orch, Orch])
   \<and> orch_ticks [Orch, Mon None, Orch, Orch] = 2 + 1
   \<and> \<not> stop_event (run 2 init [Orch, Mon None, Orch, Orch])"
  using stop_after_joins_before_shutdown [of 2 "[Orch, Mon None, Orch, Orch, Orch, Orch]"]
    stop_after_joins_before_shutdown [of 2 "[Orch, Orch, Orch, Orch]"]
    stop_after_joins_before_shutdown [of 2 "[Orch, Mon None, Orch, Orch]"]
  by (simp add: init_def orch_step_def mon_step_def orch_ticks_def)

text \<open>
  C4 as stated fails: the orchestrator does not wait for the loop of the ping thread to
  see the event. In this run the manager is shut down while the ping thread, which
  tested the event before it was set, is about to scan the registry.
\<close>

theorem shutdown_before_monitor_exit:
  "\<not> manager_running (run 1 init late_stop)
   \<and> stop_event (run 1 init late_stop)
   \<and> mpc (run 1 init late_stop) = AtScan"
  by (simp add: late_stop_def init_def orch_step_def mon_step_def)

end
